theory Spec2Isabelle
  imports Main "HOL-Library.AList"
begin

section \<open>The Record Store: documents and collections\<close>

text \<open>
  The three hooks of \<^verbatim>\<open>functions/src/index.ts\<close> read and write three collections of
  the document store: \<^verbatim>\<open>users\<close>, \<^verbatim>\<open>invites\<close> and \<^verbatim>\<open>orgs\<close>. A document is a
  record of the fields of the schema; the two fields of a user document that the
  sign-in hook tests for presence (\<^verbatim>\<open>role\<close>, \<^verbatim>\<open>orgId\<close>) are optional. A point in
  time is an integer.
\<close>

type_synonym doc_id = string
type_synonym timestamp = int

record user_doc =
  usr_email :: string
  usr_displayName :: string
  usr_photoURL :: string
  usr_orgId :: "string option"
  usr_role :: "string option"
  usr_createdAt :: timestamp
  usr_updatedAt :: timestamp

record invite_doc =
  inv_email :: string
  inv_orgId :: string
  inv_role :: string
  inv_invitedBy :: string
  inv_status :: string
  inv_createdAt :: timestamp
  inv_expiresAt :: timestamp
  inv_token :: string

record org_doc =
  org_name :: string
  org_slug :: string
  org_createdBy :: string
  org_createdAt :: timestamp
  org_memberCount :: int

text \<open>
  A collection is the list of its documents, each with its id, in the order of the
  document names: the order in which the store returns the results of a query that
  has equality filters only. The hooks observe that order in the invites only, whose
  documents they never add or remove; of a query on the users they test the emptiness
  alone, and the organizations are read by id. A well-formed collection holds one
  document per id. The member count is an unbounded integer: the 64-bit range of the
  store's integers is out of a member counter's reach.
\<close>

type_synonym 'a collection = "(doc_id \<times> 'a) list"

record store =
  users :: "user_doc collection"
  invites :: "invite_doc collection"
  orgs :: "org_doc collection"

definition wf_collection :: "'a collection \<Rightarrow> bool" where
  "wf_collection c = distinct (map fst c)"

subsection \<open>Reads\<close>

text \<open>\<^verbatim>\<open>collection(c).doc(id).get()\<close>: the document, or none (\<^verbatim>\<open>exists\<close> is false).\<close>

definition doc_get :: "'a collection \<Rightarrow> doc_id \<Rightarrow> 'a option" where
  "doc_get c k = map_of c k"

text \<open>
  \<^verbatim>\<open>.where(field, "==", v)\<close> keeps the documents whose field equals \<open>v\<close>, in order.
  \<^verbatim>\<open>.where(field, ">", v)\<close> keeps the documents whose field is greater, and, being a
  range filter, orders the result by that field, ascending, documents with equal
  values staying in the order of their names. \<^verbatim>\<open>.limit(n)\<close> keeps the first \<open>n\<close>.
\<close>

definition where_eq :: "('a \<Rightarrow> 'b) \<Rightarrow> 'b \<Rightarrow> 'a collection \<Rightarrow> 'a collection" where
  "where_eq field v c = filter (\<lambda>d. field (snd d) = v) c"

definition where_gt :: "('a \<Rightarrow> timestamp) \<Rightarrow> timestamp \<Rightarrow> 'a collection \<Rightarrow> 'a collection" where
  "where_gt field v c = sort_key (\<lambda>d. field (snd d)) (filter (\<lambda>d. field (snd d) > v) c)"

definition limit :: "nat \<Rightarrow> 'a collection \<Rightarrow> 'a collection" where
  "limit n c = take n c"

subsection \<open>Batched writes\<close>

text \<open>
  The writes of \<^verbatim>\<open>onUserCreated\<close>: \<^verbatim>\<open>set\<close> on a user document (creates or replaces),
  \<^verbatim>\<open>update\<close> of an invite's status and \<^verbatim>\<open>update\<close> of an organization's member count
  with \<^verbatim>\<open>FieldValue.increment\<close>. An \<^verbatim>\<open>update\<close> of a document that does not exist fails.
\<close>

datatype batch_write =
    SetUser doc_id user_doc
  | UpdateInviteStatus doc_id string
  | IncrementMemberCount doc_id int

fun apply_write :: "batch_write \<Rightarrow> store \<Rightarrow> store option" where
  "apply_write (SetUser k d) db = Some (db\<lparr>users := AList.update k d (users db)\<rparr>)"
| "apply_write (UpdateInviteStatus k st) db =
     (case doc_get (invites db) k of
        None \<Rightarrow> None
      | Some i \<Rightarrow> Some (db\<lparr>invites := AList.update k (i\<lparr>inv_status := st\<rparr>) (invites db)\<rparr>))"
| "apply_write (IncrementMemberCount k n) db =
     (case doc_get (orgs db) k of
        None \<Rightarrow> None
      | Some g \<Rightarrow>
          Some (db\<lparr>orgs := AList.update k (g\<lparr>org_memberCount := org_memberCount g + n\<rparr>) (orgs db)\<rparr>))"

text \<open>
  \<^verbatim>\<open>batch.commit()\<close> applies the writes of the batch in order to a working copy. The
  commit fails when a write fails, or when the store itself fails: \<open>fault = Some k\<close>
  is a failure of the store after \<open>k\<close> writes of the batch. A failed commit leaves the
  store as it was.
\<close>

fun apply_writes :: "nat option \<Rightarrow> batch_write list \<Rightarrow> store \<Rightarrow> store option" where
  "apply_writes fault [] db = (if fault = Some 0 then None else Some db)"
| "apply_writes fault (w # ws) db =
     (if fault = Some 0 then None
      else (case apply_write w db of
              None \<Rightarrow> None
            | Some db' \<Rightarrow> apply_writes (map_option (\<lambda>k. k - 1) fault) ws db'))"

datatype store_error = CommitFailed

definition batch_commit ::
  "nat option \<Rightarrow> batch_write list \<Rightarrow> store \<Rightarrow> (store_error + unit) \<times> store" where
  "batch_commit fault ws db =
     (case apply_writes fault ws db of
        None \<Rightarrow> (Inl CommitFailed, db)
      | Some db' \<Rightarrow> (Inr (), db'))"

section \<open>The hooks\<close>

text \<open>
  The record of the identity that the platform hands to a hook. In the two blocking
  hooks the payload \<^verbatim>\<open>event.data\<close> itself may be missing.
\<close>

record auth_user =
  uid :: string
  email :: "string option"
  displayName :: "string option"
  photoURL :: "string option"

datatype error_code = InvalidArgument | PermissionDenied

datatype https_error = HttpsError error_code string

text \<open>
  The custom claims a blocking hook returns; the response \<^verbatim>\<open>{}\<close> of the sign-in hook
  carries none.
\<close>

datatype claims = SuperAdminClaims | MemberClaims string string

type_synonym response = "claims option"

text \<open>A string that is missing or empty is falsy.\<close>

definition truthy :: "string option \<Rightarrow> bool" where
  "truthy x = (case x of None \<Rightarrow> False | Some v \<Rightarrow> v \<noteq> [])"

text \<open>\<^verbatim>\<open>x || ""\<close>\<close>

definition or_empty :: "string option \<Rightarrow> string" where
  "or_empty x = (if truthy x then the x else [])"

subsection \<open>checkInviteOnCreate\<close>

definition checkInviteOnCreate ::
  "timestamp \<Rightarrow> auth_user option \<Rightarrow> store \<Rightarrow> (https_error + response) \<times> store" where
  "checkInviteOnCreate now event_data db =
     (let email = Option.bind event_data email in
      if \<not> truthy email then (Inl (HttpsError InvalidArgument ''Email is required.''), db)
      else
        let superAdminQuery =
              limit 1 (where_eq usr_role (Some ''superAdmin'')
                (where_eq usr_email (the email) (users db)))
        in
        if superAdminQuery \<noteq> [] then (Inr (Some SuperAdminClaims), db)
        else
          let inviteQuery =
                limit 1 (where_gt inv_expiresAt now
                  (where_eq inv_status ''pending''
                    (where_eq inv_email (the email) (invites db))))
          in
          (case inviteQuery of
             [] \<Rightarrow>
               (Inl (HttpsError PermissionDenied ''No valid invitation found for this email.''), db)
           | d # _ \<Rightarrow> (Inr (Some (MemberClaims (inv_role (snd d)) (inv_orgId (snd d)))), db)))"

subsection \<open>validateOnSignIn\<close>

definition validateOnSignIn ::
  "auth_user option \<Rightarrow> store \<Rightarrow> (https_error + response) \<times> store" where
  "validateOnSignIn event_data db =
     (let uid = map_option uid event_data;
          email = Option.bind event_data email
      in
      if \<not> truthy uid \<or> \<not> truthy email
      then (Inl (HttpsError InvalidArgument ''Email is required.''), db)
      else
        (case doc_get (users db) (the uid) of
           Some userData \<Rightarrow>
             if usr_role userData = Some ''superAdmin'' then (Inr (Some SuperAdminClaims), db)
             else if truthy (usr_role userData) \<and> truthy (usr_orgId userData)
             then (Inr (Some (MemberClaims (the (usr_role userData)) (the (usr_orgId userData)))), db)
             else
               (Inl (HttpsError PermissionDenied
                  ''Your account has been deactivated. Contact an administrator.''), db)
         | None \<Rightarrow> (Inr None, db)))"

subsection \<open>onUserCreated\<close>

text \<open>
  \<open>now\<close> is the time of the commit, the value of \<^verbatim>\<open>FieldValue.serverTimestamp()\<close>;
  \<open>fault\<close> is the failure of the store during the commit, if any.
\<close>

definition onUserCreated ::
  "nat option \<Rightarrow> timestamp \<Rightarrow> auth_user \<Rightarrow> store \<Rightarrow> (store_error + unit) \<times> store" where
  "onUserCreated fault now userRecord db =
     (if \<not> truthy (email userRecord) then (Inr (), db)
      else
        (case doc_get (users db) (uid userRecord) of
           Some existingDoc \<Rightarrow> (Inr (), db)
         | None \<Rightarrow>
             (case limit 1 (where_eq inv_status ''pending''
                     (where_eq inv_email (the (email userRecord)) (invites db))) of
                [] \<Rightarrow> (Inr (), db)
              | inviteDoc # _ \<Rightarrow>
                  batch_commit fault
                    [SetUser (uid userRecord)
                       \<lparr>usr_email = the (email userRecord),
                        usr_displayName = or_empty (displayName userRecord),
                        usr_photoURL = or_empty (photoURL userRecord),
                        usr_orgId = Some (inv_orgId (snd inviteDoc)),
                        usr_role = Some (inv_role (snd inviteDoc)),
                        usr_createdAt = now,
                        usr_updatedAt = now\<rparr>,
                     UpdateInviteStatus (fst inviteDoc) ''accepted'',
                     IncrementMemberCount (inv_orgId (snd inviteDoc)) 1]
                    db)))"

text \<open>
  The user document that \<^verbatim>\<open>onUserCreated\<close> writes for identity \<open>u\<close> from invite \<open>i\<close>,
  and the store after the three writes of its batch: the user document set, invite \<open>k\<close>
  (whose data is \<open>i\<close>) accepted, the member count of the invite's organization (whose
  data is \<open>g\<close>) incremented.
\<close>

abbreviation new_user_doc :: "timestamp \<Rightarrow> auth_user \<Rightarrow> invite_doc \<Rightarrow> user_doc" where
  "new_user_doc now u i \<equiv>
     \<lparr>usr_email = the (email u),
      usr_displayName = or_empty (displayName u),
      usr_photoURL = or_empty (photoURL u),
      usr_orgId = Some (inv_orgId i),
      usr_role = Some (inv_role i),
      usr_createdAt = now,
      usr_updatedAt = now\<rparr>"

abbreviation materialized ::
  "timestamp \<Rightarrow> auth_user \<Rightarrow> doc_id \<Rightarrow> invite_doc \<Rightarrow> org_doc \<Rightarrow> store \<Rightarrow> store" where
  "materialized now u k i g db \<equiv>
     db\<lparr>users := AList.update (uid u) (new_user_doc now u i) (users db),
        invites := AList.update k (i\<lparr>inv_status := ''accepted''\<rparr>) (invites db),
        orgs := AList.update (inv_orgId i)
                  (g\<lparr>org_memberCount := org_memberCount g + 1\<rparr>) (orgs db)\<rparr>"

section \<open>Scenarios\<close>

text \<open>
  The store of the scenarios: the bootstrapped super admin \<^verbatim>\<open>uid0\<close>, a member
  \<^verbatim>\<open>uid2\<close> whose role an administrator has cleared, organization \<^verbatim>\<open>org1\<close> with three
  members, and three pending invites: one for \<^verbatim>\<open>a@x.com\<close> that expires at 200, one
  for \<^verbatim>\<open>b@x.com\<close> that expired at 50, and one for the super admin's own address.
  The scenarios run at time 100.
\<close>

definition scenario_invite :: "string \<Rightarrow> string \<Rightarrow> timestamp \<Rightarrow> timestamp \<Rightarrow> invite_doc" where
  "scenario_invite e r created expires =
     \<lparr>inv_email = e, inv_orgId = ''org1'', inv_role = r, inv_invitedBy = ''uid0'',
      inv_status = ''pending'', inv_createdAt = created, inv_expiresAt = expires,
      inv_token = ''t''\<rparr>"

definition scenario_store :: store where
  "scenario_store =
     \<lparr>users =
        [(''uid0'', \<lparr>usr_email = ''root@x.com'', usr_displayName = ''Root'', usr_photoURL = [],
                    usr_orgId = None, usr_role = Some ''superAdmin'',
                    usr_createdAt = 1, usr_updatedAt = 1\<rparr>),
         (''uid2'', \<lparr>usr_email = ''c@x.com'', usr_displayName = ''C'', usr_photoURL = [],
                    usr_orgId = Some ''org1'', usr_role = None,
                    usr_createdAt = 2, usr_updatedAt = 3\<rparr>)],
      invites =
        [(''inv1'', scenario_invite ''a@x.com'' ''admin'' 10 200),
         (''inv2'', scenario_invite ''b@x.com'' ''admin'' 10 50),
         (''inv3'', scenario_invite ''root@x.com'' ''viewer'' 10 200)],
      orgs =
        [(''org1'', \<lparr>org_name = ''Org One'', org_slug = ''org-one'', org_createdBy = ''uid0'',
                    org_createdAt = 1, org_memberCount = 3\<rparr>)]\<rparr>"

definition scenario_user :: "string \<Rightarrow> string \<Rightarrow> auth_user" where
  "scenario_user k e = \<lparr>uid = k, email = Some e, displayName = None, photoURL = None\<rparr>"

text \<open>
  A store with three pending invites for \<^verbatim>\<open>d@x.com\<close>, in the order of their names:
  \<^verbatim>\<open>invE\<close> (viewer, created at 25, expired at 50), \<^verbatim>\<open>invF\<close> (admin, created at 30,
  expires at 200) and \<^verbatim>\<open>invG\<close> (user, created at 20, expires at 300).
\<close>

definition multi_invite_store :: store where
  "multi_invite_store =
     \<lparr>users = [],
      invites =
        [(''invE'', scenario_invite ''d@x.com'' ''viewer'' 25 50),
         (''invF'', scenario_invite ''d@x.com'' ''admin'' 30 200),
         (''invG'', scenario_invite ''d@x.com'' ''user'' 20 300)],
      orgs =
        [(''org1'', \<lparr>org_name = ''Org One'', org_slug = ''org-one'', org_createdBy = ''uid0'',
                    org_createdAt = 1, org_memberCount = 3\<rparr>)]\<rparr>"

subsection \<open>Selection of an invite, as the specification words it\<close>

text \<open>
  The specification's tie-break among several matching invites: the one with the
  earliest \<^verbatim>\<open>createdAt\<close>. This definition follows the specification, not the code; it
  is compared with what the hooks select.
\<close>

definition spec_earliest_createdAt ::
  "invite_doc collection \<Rightarrow> (doc_id \<times> invite_doc) option" where
  "spec_earliest_createdAt c =
     (case sort_key (\<lambda>d. inv_createdAt (snd d)) c of [] \<Rightarrow> None | d # _ \<Rightarrow> Some d)"

section \<open>Facts about the store operations\<close>

lemma limit_one_Nil: "limit (Suc 0) c = [] \<longleftrightarrow> c = []"
  by (cases c) (simp_all add: limit_def)

lemma limit_one_Cons: "limit (Suc 0) (d # c) = [d]"
  by (simp add: limit_def)

lemma set_where_eq: "set (where_eq field v c) = {d \<in> set c. field (snd d) = v}"
  by (simp add: where_eq_def)

lemma where_eq_Nil: "where_eq field v c = [] \<longleftrightarrow> (\<forall>d \<in> set c. field (snd d) \<noteq> v)"
  by (auto simp: where_eq_def filter_empty_conv)

lemma where_gt_Nil:
  "where_gt field v c = [] \<longleftrightarrow> (\<forall>d \<in> set c. \<not> field (snd d) > v)"
proof -
  have "where_gt field v c = [] \<longleftrightarrow> set (where_gt field v c) = {}"
    by simp
  also have "\<dots> \<longleftrightarrow> (\<forall>d \<in> set c. \<not> field (snd d) > v)"
    by (auto simp: where_gt_def)
  finally show ?thesis .
qed

lemma truthy_Some: "truthy (Some e) \<longleftrightarrow> e \<noteq> []"
  by (simp add: truthy_def)

lemma or_empty_eq: "or_empty x = (case x of None \<Rightarrow> [] | Some n \<Rightarrow> n)"
  by (cases x) (simp_all add: or_empty_def truthy_def)

lemma doc_get_wf:
  "wf_collection c \<Longrightarrow> (k, d) \<in> set c \<Longrightarrow> doc_get c k = Some d"
  by (simp add: wf_collection_def doc_get_def)

lemma where_eq_member:
  "where_eq field v c = d # rest \<Longrightarrow> d \<in> set c \<and> field (snd d) = v"
  by (metis (mono_tags, lifting) filter_eq_ConsD  in_set_conv_decomp where_eq_def)

lemma doc_get_update: "doc_get (AList.update k v c) k' = (if k' = k then Some v else doc_get c k')"
  by (simp add: doc_get_def update_conv')

lemma wf_collection_update: "wf_collection c \<Longrightarrow> wf_collection (AList.update k v c)"
  by (simp add: wf_collection_def distinct_update)

lemma doc_get_None_keys: "doc_get c k = None \<longleftrightarrow> k \<notin> fst ` set c"
  by (simp add: doc_get_def map_of_eq_None_iff)

lemma update_fresh: "doc_get c k = None \<Longrightarrow> AList.update k v c = c @ [(k, v)]"
  by (induction c) (auto simp: doc_get_def split: if_splits)

lemma one_doc_after_set:
  "doc_get c k = None \<Longrightarrow> filter (\<lambda>d. fst d = k) (AList.update k v c) = [(k, v)]"
proof -
  assume a: "doc_get c k = None"
  then have "filter (\<lambda>d. fst d = k) c = []"
    by (auto simp: doc_get_None_keys filter_empty_conv)
  then show ?thesis by (simp add: update_fresh[OF a])
qed

lemma where_eq_update_leave:
  assumes "wf_collection c" and "doc_get c k = Some d" and "field d = v" and "field d' \<noteq> v"
  shows "length (where_eq field v (AList.update k d' c)) + 1 = length (where_eq field v c)"
  using assms
proof (induction c)
  case Nil
  then show ?case by (simp add: doc_get_def)
next
  case (Cons p c)
  show ?case
  proof (cases "fst p = k")
    case True
    then have "snd p = d" using Cons.prems(2) by (cases p) (simp add: doc_get_def)
    then show ?thesis using True Cons.prems(3,4) by (simp add: where_eq_def)
  next
    case False
    then have "doc_get c k = Some d" using Cons.prems(2) by (cases p) (simp add: doc_get_def)
    moreover have "wf_collection c" using Cons.prems(1) by (simp add: wf_collection_def)
    ultimately have "length (where_eq field v (AList.update k d' c)) + 1 = length (where_eq field v c)"
      using Cons.IH Cons.prems(3,4) by simp
    then show ?thesis using False by (simp add: where_eq_def)
  qed
qed

lemma where_eq_update_enter:
  assumes "wf_collection c" and "doc_get c k = Some d" and "field d \<noteq> v" and "field d' = v"
  shows "length (where_eq field v (AList.update k d' c)) = length (where_eq field v c) + 1"
  using assms
proof (induction c)
  case Nil
  then show ?case by (simp add: doc_get_def)
next
  case (Cons p c)
  show ?case
  proof (cases "fst p = k")
    case True
    then have "snd p = d" using Cons.prems(2) by (cases p) (simp add: doc_get_def)
    then show ?thesis using True Cons.prems(3,4) by (simp add: where_eq_def)
  next
    case False
    then have "doc_get c k = Some d" using Cons.prems(2) by (cases p) (simp add: doc_get_def)
    moreover have "wf_collection c" using Cons.prems(1) by (simp add: wf_collection_def)
    ultimately have "length (where_eq field v (AList.update k d' c)) = length (where_eq field v c) + 1"
      using Cons.IH Cons.prems(3,4) by simp
    then show ?thesis using False by (simp add: where_eq_def)
  qed
qed

lemma apply_writes_batch:
  "apply_writes fault [SetUser a r, UpdateInviteStatus k st, IncrementMemberCount c n] db =
     (if fault \<in> {Some 0, Some 1, Some 2, Some 3} then None
      else (case doc_get (invites db) k of
              None \<Rightarrow> None
            | Some i \<Rightarrow>
                (case doc_get (orgs db) c of
                   None \<Rightarrow> None
                 | Some g \<Rightarrow>
                     Some (db\<lparr>users := AList.update a r (users db),
                             invites := AList.update k (i\<lparr>inv_status := st\<rparr>) (invites db),
                             orgs := AList.update c
                               (g\<lparr>org_memberCount := org_memberCount g + n\<rparr>) (orgs db)\<rparr>))))"
proof (cases fault)
  case None
  then show ?thesis by (simp split: option.split)
next
  case (Some m)
  have "m = 0 \<or> m = 1 \<or> m = 2 \<or> m = 3 \<or> 3 < m" by arith
  then show ?thesis
    using Some by (auto split: option.split simp: numeral_2_eq_2 numeral_3_eq_3)
qed

lemma onUserCreated_commits:
  assumes "truthy (email u)"
    and "doc_get (users db) (uid u) = None"
    and "where_eq inv_status ''pending'' (where_eq inv_email (the (email u)) (invites db))
           = (k, i) # rest"
    and "doc_get (invites db) k = Some i"
    and "doc_get (orgs db) (inv_orgId i) = Some g"
  shows "onUserCreated None now u db = (Inr (), materialized now u k i g db)"
  using assms
  by (simp add: onUserCreated_def limit_one_Cons batch_commit_def)

lemma onUserCreated_existing:
  "doc_get (users db) (uid u) = Some r \<Longrightarrow> onUserCreated fault now u db = (Inr (), db)"
  by (simp add: onUserCreated_def)

lemma onUserCreated_second_noop:
  "snd (onUserCreated fault now' u (snd (onUserCreated None now u db)))
     = snd (onUserCreated None now u db)"
proof (cases "truthy (email u) \<and> doc_get (users db) (uid u) = None")
  case False
  then show ?thesis by (auto simp: onUserCreated_def)
next
  case pre: True
  let ?q = "where_eq inv_status ''pending'' (where_eq inv_email (the (email u)) (invites db))"
  show ?thesis
  proof (cases ?q)
    case Nil
    then show ?thesis using pre by (simp add: onUserCreated_def limit_def)
  next
    case (Cons d rest)
    show ?thesis
    proof (cases "doc_get (invites db) (fst d) = None \<or> doc_get (orgs db) (inv_orgId (snd d)) = None")
      case True
      then have "snd (onUserCreated f t u db) = db" for f t
        using pre Cons
        by (auto simp: onUserCreated_def limit_one_Cons batch_commit_def apply_writes_batch
            simp del: apply_writes.simps split: option.split)
      then show ?thesis by simp
    next
      case False
      then obtain i g where "doc_get (invites db) (fst d) = Some i"
        and "doc_get (orgs db) (inv_orgId (snd d)) = Some g"
        by auto
      then have "doc_get (users (snd (onUserCreated None now u db))) (uid u)
                   = Some (new_user_doc now u (snd d))"
        using pre Cons
        by (simp add: onUserCreated_def limit_one_Cons batch_commit_def apply_writes_batch
            doc_get_update del: apply_writes.simps)
      then show ?thesis by (simp add: onUserCreated_existing)
    qed
  qed
qed

lemma where_gt_single:
  "field (snd d) > v \<Longrightarrow> where_gt field v [d] = [d]"
  by (simp add: where_gt_def)

section \<open>The pre-creation hook\<close>

text \<open>
  C1. For an email (present, that is non-empty) with no user document of role
  \<^verbatim>\<open>superAdmin\<close> and no invite that is both pending and unexpired at the time of the
  call, \<^verbatim>\<open>checkInviteOnCreate\<close> throws the \<^verbatim>\<open>permission-denied\<close> error whose message
  says that no valid invitation was found. Nothing is assumed of the other invites:
  a pending invite whose \<^verbatim>\<open>expiresAt\<close> has passed does not prevent the rejection.
\<close>

theorem checkInviteOnCreate_rejects_without_valid_invite:
  assumes "email u = Some e" and "e \<noteq> []"
    and "\<not> (\<exists>d \<in> set (users db).
              usr_email (snd d) = e \<and> usr_role (snd d) = Some ''superAdmin'')"
    and "\<not> (\<exists>d \<in> set (invites db).
              inv_email (snd d) = e \<and> inv_status (snd d) = ''pending'' \<and> inv_expiresAt (snd d) > now)"
  shows "checkInviteOnCreate now (Some u) db =
          (Inl (HttpsError PermissionDenied ''No valid invitation found for this email.''), db)"
proof -
  have sa: "where_eq usr_role (Some ''superAdmin'') (where_eq usr_email e (users db)) = []"
    using assms(3) by (auto simp: where_eq_Nil set_where_eq)
  have iq: "where_gt inv_expiresAt now
              (where_eq inv_status ''pending'' (where_eq inv_email e (invites db))) = []"
    using assms(4) by (auto simp: where_gt_Nil set_where_eq)
  show ?thesis
    using assms(1,2) by (simp add: checkInviteOnCreate_def truthy_Some sa iq limit_def)
qed

text \<open>The scenario of the expired invite: \<^verbatim>\<open>b@x.com\<close> is rejected at time 100.\<close>

theorem checkInviteOnCreate_rejects_expired_invite:
  "checkInviteOnCreate 100 (Some (scenario_user ''uid9'' ''b@x.com'')) scenario_store =
     (Inl (HttpsError PermissionDenied ''No valid invitation found for this email.''),
      scenario_store)"
  using checkInviteOnCreate_rejects_without_valid_invite
          [of "scenario_user ''uid9'' ''b@x.com''" "''b@x.com''" scenario_store 100]
  by (simp add: scenario_user_def scenario_store_def scenario_invite_def)

text \<open>
  C2. For an email (present) for which some user document has that email and role
  \<^verbatim>\<open>superAdmin\<close>, \<^verbatim>\<open>checkInviteOnCreate\<close> approves with the super admin claims,
  whatever the invites collection holds: the invites are not even read.
\<close>

theorem checkInviteOnCreate_approves_superAdmin:
  assumes "email u = Some e" and "e \<noteq> []"
    and "(k, d) \<in> set (users db)" and "usr_email d = e"
    and "usr_role d = Some ''superAdmin''"
  shows "checkInviteOnCreate now (Some u) (db\<lparr>invites := any_invites\<rparr>) =
          (Inr (Some SuperAdminClaims), db\<lparr>invites := any_invites\<rparr>)"
proof -
  have "(k, d) \<in> set (where_eq usr_role (Some ''superAdmin'') (where_eq usr_email e (users db)))"
    using assms(3-5) by (simp add: set_where_eq)
  then have "where_eq usr_role (Some ''superAdmin'') (where_eq usr_email e (users db)) \<noteq> []"
    by auto
  then have "limit 1 (where_eq usr_role (Some ''superAdmin'') (where_eq usr_email e (users db))) \<noteq> []"
    by (simp add: limit_one_Nil)
  then show ?thesis
    using assms(1,2) by (simp add: checkInviteOnCreate_def truthy_Some)
qed

text \<open>
  The super admin's address has a pending invite as a viewer in the scenario store: the
  hook approves with the super admin claims all the same.
\<close>

theorem checkInviteOnCreate_approves_superAdmin_scenario:
  "checkInviteOnCreate 100 (Some (scenario_user ''uid9'' ''root@x.com'')) scenario_store =
     (Inr (Some SuperAdminClaims), scenario_store)"
  using checkInviteOnCreate_approves_superAdmin
          [of "scenario_user ''uid9'' ''root@x.com''" "''root@x.com''" "''uid0''"
              "snd (hd (users scenario_store))" scenario_store 100 "invites scenario_store"]
  by (simp add: scenario_user_def scenario_store_def)

section \<open>Read-only hooks\<close>

text \<open>
  C9. Both decision hooks leave the store as it is, on every input and in every state:
  \<^verbatim>\<open>checkInviteOnCreate\<close> and \<^verbatim>\<open>validateOnSignIn\<close> return the store they were given,
  whether they approve or throw. Any number of invocations in a row therefore leaves
  the store unchanged, and each of them returns what the first returned.
\<close>

theorem decision_hooks_read_only:
  "snd (checkInviteOnCreate now ev db) = db \<and> snd (validateOnSignIn ev' db) = db \<and>
   ((\<lambda>s. snd (checkInviteOnCreate now ev s)) ^^ n) db = db \<and>
   ((\<lambda>s. snd (validateOnSignIn ev' s)) ^^ n) db = db"
proof -
  have c: "snd (checkInviteOnCreate now ev s) = s" for s
    by (simp add: checkInviteOnCreate_def Let_def split: list.split)
  have v: "snd (validateOnSignIn ev' s) = s" for s
    by (simp add: validateOnSignIn_def Let_def split: option.split)
  have "((\<lambda>s. snd (checkInviteOnCreate now ev s)) ^^ n) db = db"
    by (induction n) (simp_all add: c)
  moreover have "((\<lambda>s. snd (validateOnSignIn ev' s)) ^^ n) db = db"
    by (induction n) (simp_all add: v)
  ultimately show ?thesis by (simp add: c v)
qed

text \<open>
  In the scenario store: an approved sign-up and a blocked sign-in, each invoked twice.
\<close>

theorem decision_hooks_read_only_scenario:
  "snd (checkInviteOnCreate 100 (Some (scenario_user ''uid1'' ''a@x.com'')) scenario_store)
     = scenario_store \<and>
   snd (validateOnSignIn (Some (scenario_user ''uid2'' ''c@x.com'')) scenario_store)
     = scenario_store \<and>
   snd (checkInviteOnCreate 100 (Some (scenario_user ''uid1'' ''a@x.com''))
          (snd (checkInviteOnCreate 100 (Some (scenario_user ''uid1'' ''a@x.com'')) scenario_store)))
     = scenario_store \<and>
   snd (validateOnSignIn (Some (scenario_user ''uid2'' ''c@x.com''))
          (snd (validateOnSignIn (Some (scenario_user ''uid2'' ''c@x.com'')) scenario_store)))
     = scenario_store"
  using decision_hooks_read_only
          [of 100 "Some (scenario_user ''uid1'' ''a@x.com'')" scenario_store
              "Some (scenario_user ''uid2'' ''c@x.com'')" 2]
  by (simp add: numeral_2_eq_2)

section \<open>The sign-in hook\<close>

text \<open>
  C10. The outcome of \<^verbatim>\<open>validateOnSignIn\<close> does not depend on the value of the email,
  only on its presence: two payloads with the same identity id and any two non-empty
  emails (and any display names and photos) get the same result in the same store.
\<close>

theorem validateOnSignIn_independent_of_email:
  assumes "uid u1 = uid u2" and "truthy (email u1)" and "truthy (email u2)"
  shows "validateOnSignIn (Some u1) db = validateOnSignIn (Some u2) db"
  using assms by (simp add: validateOnSignIn_def)

theorem validateOnSignIn_independent_of_email_scenario:
  "validateOnSignIn (Some (scenario_user ''uid0'' ''root@x.com'')) scenario_store =
   validateOnSignIn (Some (scenario_user ''uid0'' ''other@y.org'')) scenario_store"
  using validateOnSignIn_independent_of_email
          [of "scenario_user ''uid0'' ''root@x.com''" "scenario_user ''uid0'' ''other@y.org''"
              scenario_store]
  by (simp add: scenario_user_def truthy_def)

section \<open>Materialization\<close>

text \<open>
  C3. Let the email (present) have no super admin user document and exactly one pending
  invite, \<open>k\<close> with data \<open>i\<close>, which expires after the time \<open>now\<close> of the sign-up. Then
  \<^verbatim>\<open>checkInviteOnCreate\<close> approves with the member claims of the invite's role and
  organization. When \<^verbatim>\<open>onUserCreated\<close> then runs (at any later time \<open>now'\<close>, the store
  not failing) for an identity id that has no user document, in a store whose invites
  have distinct ids and that holds the invite's organization, it returns normally and
  the new store holds: the user document of that id with the email, the display name
  and the photo of the identity where it has them and the empty string where it has
  not, the invite's organization and role, and both timestamps; the invite with status
  accepted; the organization with its member count incremented by one.
\<close>

theorem invited_sign_up_materializes:
  assumes "email u = Some e" and "e \<noteq> []"
    and "\<not> (\<exists>d \<in> set (users db).
              usr_email (snd d) = e \<and> usr_role (snd d) = Some ''superAdmin'')"
    and "where_eq inv_status ''pending'' (where_eq inv_email e (invites db)) = [(k, i)]"
    and "inv_expiresAt i > now"
    and "wf_collection (invites db)"
    and "doc_get (users db) (uid u) = None"
    and "doc_get (orgs db) (inv_orgId i) = Some g"
  shows "checkInviteOnCreate now (Some u) db =
           (Inr (Some (MemberClaims (inv_role i) (inv_orgId i))), db) \<and>
         (\<exists>db'. onUserCreated None now' u db = (Inr (), db') \<and>
            doc_get (users db') (uid u) =
              Some \<lparr>usr_email = e,
                    usr_displayName = (case displayName u of None \<Rightarrow> [] | Some n \<Rightarrow> n),
                    usr_photoURL = (case photoURL u of None \<Rightarrow> [] | Some p \<Rightarrow> p),
                    usr_orgId = Some (inv_orgId i),
                    usr_role = Some (inv_role i),
                    usr_createdAt = now',
                    usr_updatedAt = now'\<rparr> \<and>
            doc_get (invites db') k = Some (i\<lparr>inv_status := ''accepted''\<rparr>) \<and>
            doc_get (orgs db') (inv_orgId i) =
              Some (g\<lparr>org_memberCount := org_memberCount g + 1\<rparr>))"
proof -
  have sa: "where_eq usr_role (Some ''superAdmin'') (where_eq usr_email e (users db)) = []"
    using assms(3) by (auto simp: where_eq_Nil set_where_eq)
  have before: "checkInviteOnCreate now (Some u) db =
           (Inr (Some (MemberClaims (inv_role i) (inv_orgId i))), db)"
    using assms(1,2,5)
    by (simp add: checkInviteOnCreate_def truthy_Some sa assms(4) where_gt_single limit_def)
  have "(k, i) \<in> set (where_eq inv_email e (invites db))"
    using where_eq_member[OF assms(4)] by simp
  then have "(k, i) \<in> set (invites db)"
    by (simp add: set_where_eq)
  then have inv: "doc_get (invites db) k = Some i"
    using assms(6) by (rule doc_get_wf[rotated])
  have "onUserCreated None now' u db = (Inr (), materialized now' u k i g db)"
    using assms(1,2,4,7,8) inv by (intro onUserCreated_commits) (simp_all add: truthy_Some)
  then show ?thesis
    using before assms(1) by (simp add: doc_get_update or_empty_eq)
qed


text \<open>
  The scenario of the invite for \<^verbatim>\<open>a@x.com\<close> as admin of \<^verbatim>\<open>org1\<close>: approved at time 100,
  materialized for \<^verbatim>\<open>uid1\<close> at time 150; \<^verbatim>\<open>org1\<close> goes from three members to four.
  An identity without display name and photo gets empty strings in its user document;
  an identity that has them gets them copied.
\<close>

theorem invited_sign_up_materializes_scenario:
  "checkInviteOnCreate 100 (Some (scenario_user ''uid1'' ''a@x.com'')) scenario_store =
     (Inr (Some (MemberClaims ''admin'' ''org1'')), scenario_store) \<and>
   fst (onUserCreated None 150 (scenario_user ''uid1'' ''a@x.com'') scenario_store) = Inr () \<and>
   doc_get (users (snd (onUserCreated None 150 (scenario_user ''uid1'' ''a@x.com'') scenario_store)))
       ''uid1'' =
     Some \<lparr>usr_email = ''a@x.com'', usr_displayName = [], usr_photoURL = [],
           usr_orgId = Some ''org1'', usr_role = Some ''admin'',
           usr_createdAt = 150, usr_updatedAt = 150\<rparr> \<and>
   map_option inv_status
     (doc_get (invites (snd (onUserCreated None 150 (scenario_user ''uid1'' ''a@x.com'') scenario_store)))
        ''inv1'') = Some ''accepted'' \<and>
   map_option org_memberCount
     (doc_get (orgs (snd (onUserCreated None 150 (scenario_user ''uid1'' ''a@x.com'') scenario_store)))
        ''org1'') = Some 4 \<and>
   doc_get (users (snd (onUserCreated None 150
        \<lparr>uid = ''uid1'', email = Some ''a@x.com'', displayName = Some ''Ann'',
           photoURL = Some ''https://x.com/ann.png''\<rparr> scenario_store)))
       ''uid1'' =
     Some \<lparr>usr_email = ''a@x.com'', usr_displayName = ''Ann'',
           usr_photoURL = ''https://x.com/ann.png'',
           usr_orgId = Some ''org1'', usr_role = Some ''admin'',
           usr_createdAt = 150, usr_updatedAt = 150\<rparr>"
  using invited_sign_up_materializes
          [where u = "scenario_user ''uid1'' ''a@x.com''" and e = "''a@x.com''"
             and db = scenario_store and k = "''inv1''"
             and i = "scenario_invite ''a@x.com'' ''admin'' 10 200"
             and g = "snd (hd (orgs scenario_store))" and now = 100 and now' = 150]
        invited_sign_up_materializes
          [where u = "\<lparr>uid = ''uid1'', email = Some ''a@x.com'', displayName = Some ''Ann'',
                         photoURL = Some ''https://x.com/ann.png''\<rparr>"
             and e = "''a@x.com''"
             and db = scenario_store and k = "''inv1''"
             and i = "scenario_invite ''a@x.com'' ''admin'' 10 200"
             and g = "snd (hd (orgs scenario_store))" and now = 100 and now' = 150]
  by (simp add: scenario_user_def scenario_store_def scenario_invite_def where_eq_def
      where_gt_def limit_def wf_collection_def doc_get_def or_empty_def truthy_def
      checkInviteOnCreate_def onUserCreated_def batch_commit_def)

section \<open>Absent record and empty record at sign-in\<close>

text \<open>
  C4. For a sign-in whose payload has an identity id and an email: when the identity
  has no user document, \<^verbatim>\<open>validateOnSignIn\<close> approves with no claims and leaves the
  store as it is; when the identity has a user document whose role is missing or empty
  (so not \<^verbatim>\<open>superAdmin\<close>), it throws the \<^verbatim>\<open>permission-denied\<close> error with the
  deactivation message. The two never meet: the approval with no claims is returned
  exactly when there is no user document.
\<close>

theorem validateOnSignIn_absent_or_empty:
  assumes "uid u \<noteq> []" and "truthy (email u)"
  shows "(doc_get (users db) (uid u) = None \<longrightarrow> validateOnSignIn (Some u) db = (Inr None, db)) \<and>
         (\<forall>d. doc_get (users db) (uid u) = Some d \<and> \<not> truthy (usr_role d) \<longrightarrow>
            validateOnSignIn (Some u) db =
              (Inl (HttpsError PermissionDenied
                 ''Your account has been deactivated. Contact an administrator.''), db)) \<and>
         (fst (validateOnSignIn (Some u) db) = Inr None \<longleftrightarrow> doc_get (users db) (uid u) = None)"
  using assms
  by (auto simp: validateOnSignIn_def truthy_def split: option.splits)


text \<open>
  In the scenario store \<^verbatim>\<open>uid1\<close> has no user document yet, and the role of \<^verbatim>\<open>uid2\<close>
  has been cleared.
\<close>

theorem validateOnSignIn_absent_or_empty_scenario:
  "validateOnSignIn (Some (scenario_user ''uid1'' ''a@x.com'')) scenario_store
     = (Inr None, scenario_store) \<and>
   validateOnSignIn (Some (scenario_user ''uid2'' ''c@x.com'')) scenario_store
     = (Inl (HttpsError PermissionDenied
          ''Your account has been deactivated. Contact an administrator.''), scenario_store)"
  using validateOnSignIn_absent_or_empty
          [where u = "scenario_user ''uid1'' ''a@x.com''" and db = scenario_store]
        validateOnSignIn_absent_or_empty
          [where u = "scenario_user ''uid2'' ''c@x.com''" and db = scenario_store]
  by (simp add: scenario_user_def scenario_store_def doc_get_def truthy_def
      validateOnSignIn_def)

section \<open>Idempotence of the materializer\<close>

text \<open>
  C5. Invoking \<^verbatim>\<open>onUserCreated\<close> twice in succession for the same identity: the second
  invocation leaves the store exactly as the first left it, in every state, at any
  time and whether or not the store fails during it. When the first invocation
  materializes (the email is present, the identity has no user document, the first
  pending invite for the email is \<open>k\<close> with data \<open>i\<close> in an invites collection of
  distinct ids, and the invite's organization is in the store), then after the two
  invocations the store holds exactly one user document for the identity, exactly the
  invite \<open>k\<close> has changed, to accepted (one pending invite fewer, one accepted invite
  more), and the member count of the organization is one more than before.
\<close>

theorem onUserCreated_idempotent:
  "snd (onUserCreated fault now' u (snd (onUserCreated None now u db)))
     = snd (onUserCreated None now u db) \<and>
   (truthy (email u) \<and> doc_get (users db) (uid u) = None \<and>
    where_eq inv_status ''pending'' (where_eq inv_email (the (email u)) (invites db))
      = (k, i) # rest \<and>
    wf_collection (invites db) \<and>
    doc_get (orgs db) (inv_orgId i) = Some g \<longrightarrow>
      (let db2 = snd (onUserCreated fault now' u (snd (onUserCreated None now u db))) in
         filter (\<lambda>d. fst d = uid u) (users db2) = [(uid u, new_user_doc now u i)] \<and>
         invites db2 = AList.update k (i\<lparr>inv_status := ''accepted''\<rparr>) (invites db) \<and>
         length (where_eq inv_status ''pending'' (invites db2)) + 1
           = length (where_eq inv_status ''pending'' (invites db)) \<and>
         length (where_eq inv_status ''accepted'' (invites db2))
           = length (where_eq inv_status ''accepted'' (invites db)) + 1 \<and>
         orgs db2 = AList.update (inv_orgId i)
                      (g\<lparr>org_memberCount := org_memberCount g + 1\<rparr>) (orgs db)))"
proof (intro conjI impI)
  show "snd (onUserCreated fault now' u (snd (onUserCreated None now u db)))
     = snd (onUserCreated None now u db)"
    by (rule onUserCreated_second_noop)
next
  assume a: "truthy (email u) \<and> doc_get (users db) (uid u) = None \<and>
    where_eq inv_status ''pending'' (where_eq inv_email (the (email u)) (invites db))
      = (k, i) # rest \<and>
    wf_collection (invites db) \<and>
    doc_get (orgs db) (inv_orgId i) = Some g"
  then have q: "where_eq inv_status ''pending'' (where_eq inv_email (the (email u)) (invites db))
      = (k, i) # rest" by simp
  have pend: "inv_status i = ''pending''"
    using where_eq_member[OF q] by simp
  have "(k, i) \<in> set (where_eq inv_email (the (email u)) (invites db))"
    using where_eq_member[OF q] by simp
  then have "(k, i) \<in> set (invites db)"
    by (simp add: set_where_eq)
  then have inv: "doc_get (invites db) k = Some i"
    using a by (simp add: doc_get_wf)
  have first: "onUserCreated None now u db = (Inr (), materialized now u k i g db)"
    using a inv by (intro onUserCreated_commits) simp_all
  have two: "snd (onUserCreated fault now' u (snd (onUserCreated None now u db)))
               = materialized now u k i g db"
    using onUserCreated_second_noop[of fault now' u now db] by (simp add: first)
  have one: "filter (\<lambda>d. fst d = uid u) (AList.update (uid u) (new_user_doc now u i) (users db))
               = [(uid u, new_user_doc now u i)]"
    using a by (simp add: one_doc_after_set)
  have leave: "length (where_eq inv_status ''pending''
                  (AList.update k (i\<lparr>inv_status := ''accepted''\<rparr>) (invites db))) + 1
                 = length (where_eq inv_status ''pending'' (invites db))"
    using a inv pend by (intro where_eq_update_leave[where d = i]) simp_all
  have enter: "length (where_eq inv_status ''accepted''
                  (AList.update k (i\<lparr>inv_status := ''accepted''\<rparr>) (invites db)))
                 = length (where_eq inv_status ''accepted'' (invites db)) + 1"
    using a inv pend by (intro where_eq_update_enter[where d = i]) simp_all
  show "let db2 = snd (onUserCreated fault now' u (snd (onUserCreated None now u db))) in
         filter (\<lambda>d. fst d = uid u) (users db2) = [(uid u, new_user_doc now u i)] \<and>
         invites db2 = AList.update k (i\<lparr>inv_status := ''accepted''\<rparr>) (invites db) \<and>
         length (where_eq inv_status ''pending'' (invites db2)) + 1
           = length (where_eq inv_status ''pending'' (invites db)) \<and>
         length (where_eq inv_status ''accepted'' (invites db2))
           = length (where_eq inv_status ''accepted'' (invites db)) + 1 \<and>
         orgs db2 = AList.update (inv_orgId i)
                      (g\<lparr>org_memberCount := org_memberCount g + 1\<rparr>) (orgs db)"
    unfolding two Let_def using one leave enter by simp
qed


text \<open>The scenario of \<^verbatim>\<open>a@x.com\<close>, materialized at 150 and invoked again at 160.\<close>

theorem onUserCreated_idempotent_scenario:
  "snd (onUserCreated None 160 (scenario_user ''uid1'' ''a@x.com'')
          (snd (onUserCreated None 150 (scenario_user ''uid1'' ''a@x.com'') scenario_store)))
     = snd (onUserCreated None 150 (scenario_user ''uid1'' ''a@x.com'') scenario_store) \<and>
   length (filter (\<lambda>d. fst d = ''uid1'')
     (users (snd (onUserCreated None 160 (scenario_user ''uid1'' ''a@x.com'')
        (snd (onUserCreated None 150 (scenario_user ''uid1'' ''a@x.com'') scenario_store)))))) = 1 \<and>
   length (where_eq inv_status ''accepted''
     (invites (snd (onUserCreated None 160 (scenario_user ''uid1'' ''a@x.com'')
        (snd (onUserCreated None 150 (scenario_user ''uid1'' ''a@x.com'') scenario_store)))))) = 1 \<and>
   map_option org_memberCount (doc_get
     (orgs (snd (onUserCreated None 160 (scenario_user ''uid1'' ''a@x.com'')
        (snd (onUserCreated None 150 (scenario_user ''uid1'' ''a@x.com'') scenario_store)))))
     ''org1'') = Some 4"
  using onUserCreated_idempotent
          [where u = "scenario_user ''uid1'' ''a@x.com''" and db = scenario_store
             and fault = None and now = 150 and now' = 160 and k = "''inv1''"
             and i = "scenario_invite ''a@x.com'' ''admin'' 10 200" and rest = "[]"
             and g = "snd (hd (orgs scenario_store))"]
  by (simp add: scenario_user_def scenario_store_def scenario_invite_def where_eq_def
      limit_def wf_collection_def doc_get_def or_empty_def truthy_def Let_def
      onUserCreated_def batch_commit_def)

section \<open>Atomicity of the materializer\<close>

text \<open>
  C6. Whatever the input, the state and the failure of the store during the commit, the
  store after \<^verbatim>\<open>onUserCreated\<close> is either the store before it (none of the three
  writes applied) or the store with all three applied: the user document set, the
  selected invite accepted and the member count of its organization incremented by one.
  A failure of the store after the first or the second write of the batch, that is
  between the creation of the user document and the increment, leaves the store as it
  was.
\<close>

theorem onUserCreated_all_or_nothing:
  "(let db' = snd (onUserCreated fault now u db) in
      db' = db \<or>
      (\<exists>k i i0 g. (k, i) \<in> set (invites db) \<and>
         doc_get (users db) (uid u) = None \<and>
         doc_get (invites db) k = Some i0 \<and>
         doc_get (orgs db) (inv_orgId i) = Some g \<and>
         db' = db\<lparr>users := AList.update (uid u) (new_user_doc now u i) (users db),
                  invites := AList.update k (i0\<lparr>inv_status := ''accepted''\<rparr>) (invites db),
                  orgs := AList.update (inv_orgId i)
                            (g\<lparr>org_memberCount := org_memberCount g + 1\<rparr>) (orgs db)\<rparr>))
   \<and> (fault \<in> {Some 1, Some 2} \<longrightarrow> snd (onUserCreated fault now u db) = db)"
proof (cases "truthy (email u) \<and> doc_get (users db) (uid u) = None")
  case False
  then show ?thesis by (auto simp: onUserCreated_def)
next
  case pre: True
  show ?thesis
  proof (cases "where_eq inv_status ''pending'' (where_eq inv_email (the (email u)) (invites db))")
    case Nil
    then show ?thesis using pre by (simp add: onUserCreated_def limit_def)
  next
    case (Cons d rest)
    have "d \<in> set (where_eq inv_email (the (email u)) (invites db))"
      using where_eq_member[OF Cons] by simp
    then have mem: "(fst d, snd d) \<in> set (invites db)"
      by (simp add: set_where_eq)
    have run: "onUserCreated fault now u db =
                 batch_commit fault
                   [SetUser (uid u) (new_user_doc now u (snd d)),
                    UpdateInviteStatus (fst d) ''accepted'',
                    IncrementMemberCount (inv_orgId (snd d)) 1] db"
      using pre Cons by (simp add: onUserCreated_def limit_one_Cons)
    show ?thesis
    proof (cases "apply_writes fault
                   [SetUser (uid u) (new_user_doc now u (snd d)),
                    UpdateInviteStatus (fst d) ''accepted'',
                    IncrementMemberCount (inv_orgId (snd d)) 1] db")
      case None
      then show ?thesis by (simp add: run batch_commit_def)
    next
      case (Some db')
      then have nofault: "fault \<notin> {Some 0, Some 1, Some 2, Some 3}"
        unfolding apply_writes_batch by (simp split: if_splits)
      from Some obtain i0 g where "doc_get (invites db) (fst d) = Some i0"
        and "doc_get (orgs db) (inv_orgId (snd d)) = Some g"
        and "db' = db\<lparr>users := AList.update (uid u) (new_user_doc now u (snd d)) (users db),
                  invites := AList.update (fst d) (i0\<lparr>inv_status := ''accepted''\<rparr>) (invites db),
                  orgs := AList.update (inv_orgId (snd d))
                            (g\<lparr>org_memberCount := org_memberCount g + 1\<rparr>) (orgs db)\<rparr>"
        unfolding apply_writes_batch by (auto split: if_splits option.splits)
      then have "\<exists>k i i0 g. (k, i) \<in> set (invites db) \<and>
         doc_get (users db) (uid u) = None \<and>
         doc_get (invites db) k = Some i0 \<and>
         doc_get (orgs db) (inv_orgId i) = Some g \<and>
         db' = db\<lparr>users := AList.update (uid u) (new_user_doc now u i) (users db),
                  invites := AList.update k (i0\<lparr>inv_status := ''accepted''\<rparr>) (invites db),
                  orgs := AList.update (inv_orgId i)
                            (g\<lparr>org_memberCount := org_memberCount g + 1\<rparr>) (orgs db)\<rparr>"
        using mem pre by blast
      moreover have "snd (onUserCreated fault now u db) = db'"
        using Some by (simp add: run batch_commit_def del: apply_writes.simps)
      ultimately show ?thesis
        using nofault by (simp add: Let_def)
    qed
  qed
qed


text \<open>
  The scenario of \<^verbatim>\<open>a@x.com\<close> with the store failing after the first write: the commit
  fails and nothing is written.
\<close>

theorem onUserCreated_all_or_nothing_scenario:
  "onUserCreated (Some 1) 150 (scenario_user ''uid1'' ''a@x.com'') scenario_store
     = (Inl CommitFailed, scenario_store) \<and>
   snd (onUserCreated (Some 2) 150 (scenario_user ''uid1'' ''a@x.com'') scenario_store)
     = scenario_store"
  using onUserCreated_all_or_nothing
          [where u = "scenario_user ''uid1'' ''a@x.com''" and db = scenario_store
             and fault = "Some 1" and now = 150]
        onUserCreated_all_or_nothing
          [where u = "scenario_user ''uid1'' ''a@x.com''" and db = scenario_store
             and fault = "Some 2" and now = 150]
  by (simp add: onUserCreated_def scenario_user_def scenario_store_def scenario_invite_def
      where_eq_def limit_def truthy_def doc_get_def batch_commit_def numeral_2_eq_2)

section \<open>Expiry is not checked again at materialization\<close>

text \<open>
  C7. \<^verbatim>\<open>onUserCreated\<close> queries the invites by email and pending status only. So for an
  identity with an email and no user document, when some pending invite for the email
  has an \<^verbatim>\<open>expiresAt\<close> that has passed at the time \<open>now\<close> of the run (in a store whose
  invites have distinct ids and refer to organizations that exist, the store not
  failing): the query is not empty and the hook materializes from its first result,
  \<open>k\<close> with data \<open>i\<close>: user document created, invite accepted, member count
  incremented. When the email has no other pending invite, the expired invite is the
  one that is consumed.
\<close>

theorem onUserCreated_ignores_expiry:
  assumes "truthy (email u)" and "doc_get (users db) (uid u) = None"
    and "(k0, i0) \<in> set (invites db)" and "inv_email i0 = the (email u)"
    and "inv_status i0 = ''pending''" and "inv_expiresAt i0 \<le> now"
    and "wf_collection (invites db)"
    and "\<not> (\<exists>d \<in> set (invites db). doc_get (orgs db) (inv_orgId (snd d)) = None)"
  shows "\<exists>k i g rest.
           where_eq inv_status ''pending'' (where_eq inv_email (the (email u)) (invites db))
             = (k, i) # rest \<and>
           doc_get (orgs db) (inv_orgId i) = Some g \<and>
           onUserCreated None now u db = (Inr (), materialized now u k i g db) \<and>
           (rest = [] \<longrightarrow> (k, i) = (k0, i0))"
proof -
  let ?q = "where_eq inv_status ''pending'' (where_eq inv_email (the (email u)) (invites db))"
  have in_q: "(k0, i0) \<in> set ?q"
    using assms(3-5) by (simp add: set_where_eq)
  then obtain k i rest where q: "?q = (k, i) # rest"
    by (cases ?q) auto
  have "(k, i) \<in> set (where_eq inv_email (the (email u)) (invites db))"
    using where_eq_member[OF q] by simp
  then have mem: "(k, i) \<in> set (invites db)"
    by (simp add: set_where_eq)
  then have inv: "doc_get (invites db) k = Some i"
    using assms(7) by (simp add: doc_get_wf)
  obtain g where g: "doc_get (orgs db) (inv_orgId i) = Some g"
    using assms(8) mem by (cases "doc_get (orgs db) (inv_orgId i)") force+
  have run: "onUserCreated None now u db = (Inr (), materialized now u k i g db)"
    using assms(1,2) q inv g by (rule onUserCreated_commits)
  have "rest = [] \<longrightarrow> (k, i) = (k0, i0)"
    using in_q q by auto
  then show ?thesis
    using q g run by blast
qed


text \<open>
  The invite for \<^verbatim>\<open>b@x.com\<close> expired at 50. At time 100 \<^verbatim>\<open>onUserCreated\<close> still
  materializes \<^verbatim>\<open>uid3\<close> from it.
\<close>

theorem onUserCreated_ignores_expiry_scenario:
  "fst (onUserCreated None 100 (scenario_user ''uid3'' ''b@x.com'') scenario_store) = Inr () \<and>
   map_option usr_role
     (doc_get (users (snd (onUserCreated None 100 (scenario_user ''uid3'' ''b@x.com'') scenario_store)))
        ''uid3'') = Some (Some ''admin'') \<and>
   map_option inv_status
     (doc_get (invites (snd (onUserCreated None 100 (scenario_user ''uid3'' ''b@x.com'') scenario_store)))
        ''inv2'') = Some ''accepted'' \<and>
   map_option org_memberCount
     (doc_get (orgs (snd (onUserCreated None 100 (scenario_user ''uid3'' ''b@x.com'') scenario_store)))
        ''org1'') = Some 4"
  using onUserCreated_ignores_expiry
          [where u = "scenario_user ''uid3'' ''b@x.com''" and db = scenario_store
             and ?k0.0 = "''inv2''" and ?i0.0 = "scenario_invite ''b@x.com'' ''admin'' 10 50"
             and now = 100]
  by (simp add: scenario_user_def scenario_store_def scenario_invite_def where_eq_def
      limit_def wf_collection_def doc_get_def or_empty_def truthy_def
      onUserCreated_def batch_commit_def)

section \<open>Several pending invites for one email\<close>

text \<open>
  C8, as stated, fails. In the store with three pending invites for \<^verbatim>\<open>d@x.com\<close>, at time
  100, two of them are unexpired, and the one with the earliest \<^verbatim>\<open>createdAt\<close> is
  \<^verbatim>\<open>invG\<close> (among the unexpired ones and among all three). \<^verbatim>\<open>checkInviteOnCreate\<close>
  approves with the claims of \<^verbatim>\<open>invF\<close>, and \<^verbatim>\<open>onUserCreated\<close> consumes \<^verbatim>\<open>invE\<close>: neither
  hook selects the invite created first, and the two select different invites.
\<close>

theorem hooks_do_not_select_earliest_createdAt:
  "length (where_gt inv_expiresAt 100 (where_eq inv_status ''pending''
      (where_eq inv_email ''d@x.com'' (invites multi_invite_store)))) = 2 \<and>
   spec_earliest_createdAt (where_gt inv_expiresAt 100 (where_eq inv_status ''pending''
      (where_eq inv_email ''d@x.com'' (invites multi_invite_store))))
     = Some (''invG'', scenario_invite ''d@x.com'' ''user'' 20 300) \<and>
   spec_earliest_createdAt (where_eq inv_status ''pending''
      (where_eq inv_email ''d@x.com'' (invites multi_invite_store)))
     = Some (''invG'', scenario_invite ''d@x.com'' ''user'' 20 300) \<and>
   checkInviteOnCreate 100 (Some (scenario_user ''uid4'' ''d@x.com'')) multi_invite_store
     = (Inr (Some (MemberClaims ''admin'' ''org1'')), multi_invite_store) \<and>
   map (\<lambda>d. (fst d, inv_status (snd d)))
     (invites (snd (onUserCreated None 100 (scenario_user ''uid4'' ''d@x.com'') multi_invite_store)))
     = [(''invE'', ''accepted''), (''invF'', ''pending''), (''invG'', ''pending'')] \<and>
   map_option usr_role
     (doc_get (users (snd (onUserCreated None 100 (scenario_user ''uid4'' ''d@x.com'')
        multi_invite_store))) ''uid4'') = Some (Some ''viewer'')"
  by (simp add: multi_invite_store_def scenario_invite_def scenario_user_def
      spec_earliest_createdAt_def where_gt_def where_eq_def limit_def checkInviteOnCreate_def
      onUserCreated_def batch_commit_def truthy_def doc_get_def)


text \<open>
  C8, amended. When the email (present, without a super admin user document) has
  several pending unexpired invites, neither hook fails because of it, and each selects
  the first result of its own query and ignores the rest. \<^verbatim>\<open>checkInviteOnCreate\<close>
  approves with the claims of the first of the pending unexpired invites in the order of
  \<^verbatim>\<open>expiresAt\<close>: none of the others expires earlier. \<^verbatim>\<open>onUserCreated\<close> selects the first
  of all the pending invites of the email, expired or not, in the order of the document
  names, and materializes from it (for an identity without user document, invites with
  distinct ids, and the invite's organization in the store). Neither orders by
  \<^verbatim>\<open>createdAt\<close>, and the two hooks need not select the same invite.
\<close>

theorem hooks_select_first_query_result:
  assumes "email u = Some e" and "e \<noteq> []"
    and "\<not> (\<exists>d \<in> set (users db).
              usr_email (snd d) = e \<and> usr_role (snd d) = Some ''superAdmin'')"
    and "2 \<le> length (where_gt inv_expiresAt now
                (where_eq inv_status ''pending'' (where_eq inv_email e (invites db))))"
  shows "(\<exists>d rest.
            where_gt inv_expiresAt now
              (where_eq inv_status ''pending'' (where_eq inv_email e (invites db))) = d # rest \<and>
            rest \<noteq> [] \<and>
            (\<forall>d' \<in> set rest. inv_expiresAt (snd d) \<le> inv_expiresAt (snd d')) \<and>
            checkInviteOnCreate now (Some u) db =
              (Inr (Some (MemberClaims (inv_role (snd d)) (inv_orgId (snd d)))), db)) \<and>
         (\<exists>k i rest.
            where_eq inv_status ''pending'' (where_eq inv_email e (invites db)) = (k, i) # rest \<and>
            rest \<noteq> [] \<and>
            (\<forall>g. doc_get (users db) (uid u) = None \<and> wf_collection (invites db) \<and>
                 doc_get (orgs db) (inv_orgId i) = Some g \<longrightarrow>
                 onUserCreated None now' u db = (Inr (), materialized now' u k i g db)))"
proof -
  let ?p = "where_eq inv_status ''pending'' (where_eq inv_email e (invites db))"
  let ?q = "where_gt inv_expiresAt now ?p"
  obtain d rest where q: "?q = d # rest" and rest: "rest \<noteq> []"
    using assms(4) by (cases ?q; cases "tl ?q") auto
  have "sorted (map (\<lambda>d. inv_expiresAt (snd d)) ?q)"
    by (simp add: where_gt_def)
  then have least: "\<forall>d' \<in> set rest. inv_expiresAt (snd d) \<le> inv_expiresAt (snd d')"
    by (simp add: q)
  have sa: "where_eq usr_role (Some ''superAdmin'') (where_eq usr_email e (users db)) = []"
    using assms(3) by (auto simp: where_eq_Nil set_where_eq)
  have before: "checkInviteOnCreate now (Some u) db =
              (Inr (Some (MemberClaims (inv_role (snd d)) (inv_orgId (snd d)))), db)"
    using assms(1,2) by (simp add: checkInviteOnCreate_def truthy_Some sa q limit_def)
  have "length ?q \<le> length ?p"
    by (simp add: where_gt_def)
  then have "2 \<le> length ?p" using assms(4) by simp
  then obtain k i rest' where p: "?p = (k, i) # rest'" and rest': "rest' \<noteq> []"
    by (cases ?p; cases "tl ?p") auto
  have "(k, i) \<in> set (where_eq inv_email e (invites db))"
    using where_eq_member[OF p] by simp
  then have mem: "(k, i) \<in> set (invites db)"
    by (simp add: set_where_eq)
  have after: "onUserCreated None now' u db = (Inr (), materialized now' u k i g db)"
    if "doc_get (users db) (uid u) = None \<and> wf_collection (invites db) \<and>
        doc_get (orgs db) (inv_orgId i) = Some g" for g
    using that assms(1,2) p mem
    by (intro onUserCreated_commits) (simp_all add: truthy_Some doc_get_wf)
  show ?thesis
    using q rest least before p rest' after by blast
qed


theorem hooks_select_first_query_result_scenario:
  "checkInviteOnCreate 100 (Some (scenario_user ''uid4'' ''d@x.com'')) multi_invite_store
     = (Inr (Some (MemberClaims ''admin'' ''org1'')), multi_invite_store) \<and>
   fst (onUserCreated None 150 (scenario_user ''uid4'' ''d@x.com'') multi_invite_store) = Inr () \<and>
   map_option usr_role
     (doc_get (users (snd (onUserCreated None 150 (scenario_user ''uid4'' ''d@x.com'')
        multi_invite_store))) ''uid4'') = Some (Some ''viewer'')"
  using hooks_select_first_query_result
          [where u = "scenario_user ''uid4'' ''d@x.com''" and e = "''d@x.com''"
             and db = multi_invite_store and now = 100 and now' = 150]
  by (simp add: multi_invite_store_def scenario_invite_def scenario_user_def
      where_gt_def where_eq_def limit_def checkInviteOnCreate_def
      onUserCreated_def batch_commit_def truthy_def doc_get_def or_empty_def
      wf_collection_def)

end
